theory Spec2Isabelle
  imports Complex_Main
begin

section \<open>Configuration (class Config of app.py)\<close>

record config =
  REQUEST_TIMEOUT :: real
  MAX_RETRIES :: int
  RATE_LIMIT_DELAY :: real
  MAX_QUEUE_SIZE :: int
  BATCH_SIZE :: int
  CACHE_SIZE :: int
  CACHE_TTL :: int
  RATE_LIMIT :: int
  RATE_LIMIT_PERIOD :: int
  MAX_CONCURRENT_REQUESTS :: int

definition Config :: config where
  "Config = \<lparr> REQUEST_TIMEOUT = 30, MAX_RETRIES = 3, RATE_LIMIT_DELAY = 1 / 10,
     MAX_QUEUE_SIZE = 1000, BATCH_SIZE = 10, CACHE_SIZE = 1000, CACHE_TTL = 86400,
     RATE_LIMIT = 10, RATE_LIMIT_PERIOD = 60, MAX_CONCURRENT_REQUESTS = 5 \<rparr>"

section \<open>RateLimiter\<close>

text \<open>
  The clock reading \<^verbatim>\<open>time.time()\<close> is an input of each call: \<open>is_allowed now s\<close> is the
  call made when the clock reads \<open>now\<close>, and returns the answer with the updated limiter.
  Clock readings are real numbers.
\<close>

record RateLimiter =
  limit :: int
  period :: int
  requests :: "real list"

definition RateLimiter_init :: "int \<Rightarrow> int \<Rightarrow> RateLimiter" where
  "RateLimiter_init l p = \<lparr> limit = l, period = p, requests = [] \<rparr>"

definition is_allowed :: "real \<Rightarrow> RateLimiter \<Rightarrow> bool \<times> RateLimiter" where
  "is_allowed now s =
     (let s1 = s\<lparr> requests := filter (\<lambda>t. now - t < real_of_int (period s)) (requests s) \<rparr>
      in if int (length (requests s1)) < limit s1
         then (True, s1\<lparr> requests := requests s1 @ [now] \<rparr>)
         else (False, s1))"

text \<open>A sequence of calls, one per clock reading, in order.\<close>

fun calls :: "real list \<Rightarrow> RateLimiter \<Rightarrow> bool list \<times> RateLimiter" where
  "calls [] s = ([], s)"
| "calls (now # ts) s =
     (let (r, s1) = is_allowed now s;
          (rs, s2) = calls ts s1
      in (r # rs, s2))"

section \<open>CardData\<close>

record CardData =
  name :: string
  oracle_text :: string
  mana_cost :: string
  type_line :: string
  set_name :: string
  found :: bool

text \<open>The constructor \<^verbatim>\<open>CardData.__init__\<close>; a call site that omits a keyword passes its
  default, the empty string for the four descriptive fields.\<close>

definition CardData_init ::
    "string \<Rightarrow> string \<Rightarrow> string \<Rightarrow> string \<Rightarrow> string \<Rightarrow> bool \<Rightarrow> CardData" where
  "CardData_init n ot mc ty sn f =
     \<lparr> name = n, oracle_text = ot, mana_cost = mc, type_line = ty, set_name = sn, found = f \<rparr>"

section \<open>CardManager: the upstream fetch with retry and backoff\<close>

text \<open>Exceptions are values; a computation that may raise returns \<open>exn + 'a\<close>, \<open>Inl\<close> being the
  raised exception. \<open>OtherException\<close> stands for every other subclass of \<^verbatim>\<open>Exception\<close>.\<close>

datatype exn =
    RuntimeError
  | ClientResponseError int
  | ServerDisconnectedError
  | TooManyRedirects
  | TimeoutError
  | QueueFull
  | ValueError
  | OtherException

text \<open>
  What one \<^verbatim>\<open>session.get\<close> gives: it raises, or it yields a response with a status code, whose
  \<^verbatim>\<open>json()\<close> in turn raises or yields the decoded object. The decoded object is a
  dictionary from keys to strings (the fields read are strings in the upstream's answers).
  The upstream is an input of the model: \<open>up attempt\<close> is what the request of the loop's
  iteration \<open>attempt\<close> meets.
\<close>

record response =
  status :: int
  json :: "exn + (string \<rightharpoonup> string)"

type_synonym upstream = "nat \<Rightarrow> exn + response"

record ClientSession =
  closed :: bool

text \<open>The semaphore of \<^verbatim>\<open>CardManager\<close> orders concurrent invocations only; one invocation
  taken alone acquires a permit, runs the loop and releases it, so the field is left out.\<close>

record CardManager =
  session :: "ClientSession option"

definition CardManager_init :: CardManager where
  "CardManager_init = \<lparr> session = None \<rparr>"

definition aenter :: "CardManager \<Rightarrow> CardManager" where
  "aenter self =
     (case session self of
        None \<Rightarrow> self\<lparr> session := Some \<lparr> closed = False \<rparr> \<rparr>
      | Some se \<Rightarrow> if closed se then self\<lparr> session := Some \<lparr> closed = False \<rparr> \<rparr> else self)"

definition aexit :: "CardManager \<Rightarrow> CardManager" where
  "aexit self =
     (case session self of
        None \<Rightarrow> self
      | Some se \<Rightarrow> if \<not> closed se then self\<lparr> session := Some (se\<lparr> closed := True \<rparr>) \<rparr> else self)"

text \<open>The observable effects of a fetch, in order: a sleep of so many seconds, or a GET to
  the upstream with the fuzzy parameter.\<close>

datatype event = Sleep real | Get string

definition dict_get :: "('k \<rightharpoonup> 'v) \<Rightarrow> 'k \<Rightarrow> 'v \<Rightarrow> 'v" where
  "dict_get d k dflt = (case d k of None \<Rightarrow> dflt | Some v \<Rightarrow> v)"

text \<open>
  The body of the \<^verbatim>\<open>async with self.session.get(...) as response\<close> block (lines 115 to 129),
  given what the request met: it returns a card or raises. \<^verbatim>\<open>raise_for_status\<close> raises
  \<^verbatim>\<open>ClientResponseError\<close> with the response's status when the status is 400 or more.
\<close>

definition try_body :: "exn + response \<Rightarrow> string \<Rightarrow> exn + CardData" where
  "try_body r card_name =
     (case r of
        Inl e \<Rightarrow> Inl e
      | Inr resp \<Rightarrow>
          if status resp = 404 then Inr (CardData_init card_name '''' '''' '''' '''' False)
          else if 400 \<le> status resp then Inl (ClientResponseError (status resp))
          else (case json resp of
                  Inl e \<Rightarrow> Inl e
                | Inr data \<Rightarrow>
                    Inr (CardData_init (dict_get data ''name'' '''')
                           (dict_get data ''oracle_text'' '''') (dict_get data ''mana_cost'' '''')
                           (dict_get data ''type_line'' '''') (dict_get data ''set_name'' '''')
                           True)))"

text \<open>
  The loop \<^verbatim>\<open>for attempt in range(Config.MAX_RETRIES)\<close> over the attempts still to run, with
  the \<^verbatim>\<open>except\<close> clauses in the source's order; the empty list is the fall-through to the
  last line of the function. (In aiohttp \<^verbatim>\<open>TooManyRedirects\<close> is a subclass of
  \<^verbatim>\<open>ClientResponseError\<close>, so the first clause takes it; with a status other than 404 both
  clauses do the same.)
\<close>

fun retry_loop :: "config \<Rightarrow> upstream \<Rightarrow> string \<Rightarrow> nat list \<Rightarrow> CardData \<times> event list" where
  "retry_loop cfg up card_name [] = (CardData_init card_name '''' '''' '''' '''' False, [])"
| "retry_loop cfg up card_name (attempt # rest) =
     (case try_body (up attempt) card_name of
        Inr info \<Rightarrow> (info, [Sleep (RATE_LIMIT_DELAY cfg), Get card_name])
      | Inl (ClientResponseError st) \<Rightarrow>
          if st = 404 then
            (CardData_init card_name '''' '''' '''' '''' False,
             [Sleep (RATE_LIMIT_DELAY cfg), Get card_name])
          else if int attempt = MAX_RETRIES cfg - 1 then
            (CardData_init card_name '''' '''' '''' '''' False,
             [Sleep (RATE_LIMIT_DELAY cfg), Get card_name])
          else
            (fst (retry_loop cfg up card_name rest),
             [Sleep (RATE_LIMIT_DELAY cfg), Get card_name, Sleep (2 ^ attempt)]
               @ snd (retry_loop cfg up card_name rest))
      | Inl ServerDisconnectedError \<Rightarrow>
          if int attempt = MAX_RETRIES cfg - 1 then
            (CardData_init card_name '''' '''' '''' '''' False,
             [Sleep (RATE_LIMIT_DELAY cfg), Get card_name])
          else
            (fst (retry_loop cfg up card_name rest),
             [Sleep (RATE_LIMIT_DELAY cfg), Get card_name, Sleep (2 ^ attempt)]
               @ snd (retry_loop cfg up card_name rest))
      | Inl TooManyRedirects \<Rightarrow>
          if int attempt = MAX_RETRIES cfg - 1 then
            (CardData_init card_name '''' '''' '''' '''' False,
             [Sleep (RATE_LIMIT_DELAY cfg), Get card_name])
          else
            (fst (retry_loop cfg up card_name rest),
             [Sleep (RATE_LIMIT_DELAY cfg), Get card_name, Sleep (2 ^ attempt)]
               @ snd (retry_loop cfg up card_name rest))
      | Inl TimeoutError \<Rightarrow>
          if int attempt = MAX_RETRIES cfg - 1 then
            (CardData_init card_name '''' '''' '''' '''' False,
             [Sleep (RATE_LIMIT_DELAY cfg), Get card_name])
          else
            (fst (retry_loop cfg up card_name rest),
             [Sleep (RATE_LIMIT_DELAY cfg), Get card_name, Sleep (2 ^ attempt)]
               @ snd (retry_loop cfg up card_name rest))
      | Inl _ \<Rightarrow>
          (CardData_init card_name '''' '''' '''' '''' False,
           [Sleep (RATE_LIMIT_DELAY cfg), Get card_name]))"

text \<open>\<^verbatim>\<open>fetch_card_info\<close>: the returned card or the raised exception, with the effects.\<close>

definition fetch_card_info ::
    "CardManager \<Rightarrow> config \<Rightarrow> upstream \<Rightarrow> string \<Rightarrow> (exn + CardData) \<times> event list" where
  "fetch_card_info self cfg up card_name =
     (case session self of
        None \<Rightarrow> (Inl RuntimeError, [])
      | Some se \<Rightarrow>
          if closed se then (Inl RuntimeError, [])
          else (Inr (fst (retry_loop cfg up card_name [0 ..< nat (MAX_RETRIES cfg)])),
                snd (retry_loop cfg up card_name [0 ..< nat (MAX_RETRIES cfg)])))"

text \<open>The upstream calls of a run, and the classes of what an attempt can meet.\<close>

fun is_Get :: "event \<Rightarrow> bool" where
  "is_Get (Get _) = True"
| "is_Get (Sleep _) = False"

definition upstream_calls :: "event list \<Rightarrow> nat" where
  "upstream_calls tr = length (filter is_Get tr)"

fun transient_exn :: "exn \<Rightarrow> bool" where
  "transient_exn (ClientResponseError st) = (st \<noteq> 404)"
| "transient_exn ServerDisconnectedError = True"
| "transient_exn TooManyRedirects = True"
| "transient_exn TimeoutError = True"
| "transient_exn _ = False"

definition transient :: "exn + response \<Rightarrow> string \<Rightarrow> bool" where
  "transient r card_name =
     (case try_body r card_name of Inl e \<Rightarrow> transient_exn e | Inr _ \<Rightarrow> False)"

definition not_found_404 :: "exn + response \<Rightarrow> bool" where
  "not_found_404 r =
     (case r of
        Inl e \<Rightarrow> e = ClientResponseError 404
      | Inr resp \<Rightarrow> status resp = 404)"

section \<open>The cache and the queue\<close>

text \<open>
  \<^verbatim>\<open>card_cache\<close> is a \<^verbatim>\<open>cachetools.TTLCache\<close>. The model is its live content, as an association
  list in the order of the last store of each key; expiry after the time to live and eviction
  at capacity are the library's and are not modelled.
\<close>

type_synonym cache = "(string \<times> CardData) list"

definition cache_contains :: "cache \<Rightarrow> string \<Rightarrow> bool" where
  "cache_contains c k = (map_of c k \<noteq> None)"

definition cache_setitem :: "string \<Rightarrow> CardData \<Rightarrow> cache \<Rightarrow> cache" where
  "cache_setitem k v c = filter (\<lambda>p. fst p \<noteq> k) c @ [(k, v)]"

definition cache_values :: "cache \<Rightarrow> CardData list" where
  "cache_values c = map snd c"

text \<open>
  \<^verbatim>\<open>asyncio.Queue\<close>, as much of it as the worker uses: the pending items in order, the bound
  (none when it is not positive) and the count of unfinished tasks, which \<^verbatim>\<open>put\<close> increments
  and \<^verbatim>\<open>task_done\<close> decrements, raising \<^verbatim>\<open>ValueError\<close> when called more often than items
  were put.
\<close>

record Queue =
  items :: "string list"
  maxsize :: int
  unfinished_tasks :: int

definition Queue_init :: "int \<Rightarrow> Queue" where
  "Queue_init m = \<lparr> items = [], maxsize = m, unfinished_tasks = 0 \<rparr>"

definition full :: "Queue \<Rightarrow> bool" where
  "full q = (if maxsize q \<le> 0 then False else maxsize q \<le> int (length (items q)))"

definition put_nowait :: "string \<Rightarrow> Queue \<Rightarrow> Queue" where
  "put_nowait x q = q\<lparr> items := items q @ [x], unfinished_tasks := unfinished_tasks q + 1 \<rparr>"

definition task_done :: "Queue \<Rightarrow> exn + Queue" where
  "task_done q =
     (if unfinished_tasks q \<le> 0 then Inl ValueError
      else Inr (q\<lparr> unfinished_tasks := unfinished_tasks q - 1 \<rparr>))"

text \<open>
  \<^verbatim>\<open>asyncio.wait_for(self.queue.put(card_name), timeout=5.0)\<close>: with room the item is appended
  at once. On a full queue the call is suspended; \<open>freed\<close> tells whether a consumer's
  \<^verbatim>\<open>get\<close> takes the head of the queue before the timeout, after which the item is appended;
  otherwise \<^verbatim>\<open>TimeoutError\<close> is raised and the queue is as before.
\<close>

definition wait_for_put :: "bool \<Rightarrow> string \<Rightarrow> Queue \<Rightarrow> exn + Queue" where
  "wait_for_put freed x q =
     (if \<not> full q then Inr (put_nowait x q)
      else if freed then Inr (put_nowait x (q\<lparr> items := tl (items q) \<rparr>))
      else Inl TimeoutError)"

text \<open>\<^verbatim>\<open>asyncio.wait_for(self.queue.get(), timeout=1.0)\<close> with no producer running meanwhile:
  the head of the queue, or \<^verbatim>\<open>TimeoutError\<close> on an empty queue.\<close>

definition wait_for_get :: "Queue \<Rightarrow> exn + (string \<times> Queue)" where
  "wait_for_get q =
     (case items q of
        [] \<Rightarrow> Inl TimeoutError
      | x # xs \<Rightarrow> Inr (x, q\<lparr> items := xs \<rparr>))"

section \<open>QueueWorker\<close>

record QueueWorker =
  queue :: Queue
  is_running :: bool

definition QueueWorker_init :: "config \<Rightarrow> QueueWorker" where
  "QueueWorker_init cfg = \<lparr> queue = Queue_init (MAX_QUEUE_SIZE cfg), is_running = False \<rparr>"

definition add_to_queue :: "bool \<Rightarrow> string \<Rightarrow> QueueWorker \<Rightarrow> bool \<times> QueueWorker" where
  "add_to_queue freed card_name self =
     (case wait_for_put freed card_name (queue self) of
        Inr q \<Rightarrow> (True, self\<lparr> queue := q \<rparr>)
      | Inl QueueFull \<Rightarrow> (False, self)
      | Inl TimeoutError \<Rightarrow> (False, self)
      | Inl _ \<Rightarrow> (False, self))"

definition get_queue_size :: "QueueWorker \<Rightarrow> nat" where
  "get_queue_size self = length (items (queue self))"

text \<open>Collecting a batch (lines 179 to 188): up to so many items, stopping at the first
  timeout; any other exception skips to the next round of the loop.\<close>

fun collect_batch :: "nat \<Rightarrow> Queue \<Rightarrow> string list \<Rightarrow> string list \<times> Queue" where
  "collect_batch 0 q batch = (batch, q)"
| "collect_batch (Suc n) q batch =
     (case wait_for_get q of
        Inr (card_name, q1) \<Rightarrow> collect_batch n q1 (batch @ [card_name])
      | Inl TimeoutError \<Rightarrow> (batch, q)
      | Inl _ \<Rightarrow> collect_batch n q batch)"

text \<open>
  Processing a batch (lines 195 to 210). \<open>ups card_name\<close> is the upstream that the fetch of
  \<open>card_name\<close> meets. An exception of the fetch is caught and logged by the inner handler;
  the \<^verbatim>\<open>finally\<close> clause calls \<^verbatim>\<open>task_done\<close> in either case, and an exception of
  \<^verbatim>\<open>task_done\<close> itself leaves the loop for the outer handler. The second component lists
  the items whose round has marked them done, in order.
\<close>

fun process_batch ::
    "CardManager \<Rightarrow> config \<Rightarrow> (string \<Rightarrow> upstream) \<Rightarrow> string list \<Rightarrow> cache \<times> Queue
       \<Rightarrow> (exn + cache \<times> Queue) \<times> string list" where
  "process_batch card_manager cfg ups [] (c, q) = (Inr (c, q), [])"
| "process_batch card_manager cfg ups (card_name # batch) (c, q) =
     (let c1 = (if \<not> cache_contains c card_name
                then (case fst (fetch_card_info card_manager cfg (ups card_name) card_name) of
                        Inr card_info \<Rightarrow> cache_setitem card_name card_info c
                      | Inl e \<Rightarrow> c)
                else c)
      in case task_done q of
           Inl e \<Rightarrow> (Inl e, [])
         | Inr q1 \<Rightarrow>
             (fst (process_batch card_manager cfg ups batch (c1, q1)),
              card_name # snd (process_batch card_manager cfg ups batch (c1, q1))))"

text \<open>One round of the loop of \<^verbatim>\<open>process_queue\<close>: collect a batch and process it; an empty
  batch only sleeps.\<close>

definition process_queue_round ::
    "CardManager \<Rightarrow> config \<Rightarrow> (string \<Rightarrow> upstream) \<Rightarrow> cache \<times> Queue
       \<Rightarrow> (exn + cache \<times> Queue) \<times> string list" where
  "process_queue_round card_manager cfg ups st =
     (let (batch, q1) = collect_batch (nat (BATCH_SIZE cfg)) (snd st) []
      in if batch = [] then (Inr (fst st, q1), [])
         else process_batch card_manager cfg ups batch (fst st, q1))"

section \<open>The lookup endpoint\<close>

text \<open>A JSON object of the answer, as the list of its keys and values in order.\<close>

type_synonym entry = "(string \<times> string) list"

definition card_entry :: "CardData \<Rightarrow> entry" where
  "card_entry card_data =
     [(''name'', name card_data), (''oracle_text'', oracle_text card_data),
      (''mana_cost'', mana_cost card_data), (''type_line'', type_line card_data),
      (''set_name'', set_name card_data),
      (''status'', if found card_data then ''found'' else ''not found'')]"

text \<open>The loop over the submitted names (lines 302 to 315). Each name comes with what its
  enqueueing would meet on a full queue (see \<open>wait_for_put\<close>).\<close>

fun lookup_names ::
    "cache \<Rightarrow> (string \<times> bool) list \<Rightarrow> QueueWorker \<Rightarrow> entry list \<times> QueueWorker" where
  "lookup_names c [] qw = ([], qw)"
| "lookup_names c ((nm, freed) # rest) qw =
     (case map_of c nm of
        Some card_data \<Rightarrow>
          (card_entry card_data # fst (lookup_names c rest qw), snd (lookup_names c rest qw))
      | None \<Rightarrow>
          (let (queued, qw1) = add_to_queue freed nm qw
           in ([(''name'', nm), (''status'', if queued then ''queued'' else ''queue full'')]
                 # fst (lookup_names c rest qw1),
               snd (lookup_names c rest qw1))))"

text \<open>\<^verbatim>\<open>fetch_cards\<close> on a decoded request: the answer with its HTTP status, and the worker.\<close>

definition fetch_cards ::
    "cache \<Rightarrow> (string \<times> bool) list \<Rightarrow> QueueWorker \<Rightarrow> (entry list \<times> int) \<times> QueueWorker" where
  "fetch_cards c card_names qw =
     (if card_names = [] then ((map card_entry (cache_values c), 200), qw)
      else ((fst (lookup_names c card_names qw), 200), snd (lookup_names c card_names qw)))"

section \<open>Properties of the rate limiter\<close>

lemma is_allowed_fst:
  "fst (is_allowed now s) \<longleftrightarrow>
     int (length (filter (\<lambda>t. now - t < real_of_int (period s)) (requests s))) < limit s"
  by (simp add: is_allowed_def Let_def)

lemma is_allowed_snd:
  "snd (is_allowed now s) =
     s\<lparr> requests := filter (\<lambda>t. now - t < real_of_int (period s)) (requests s)
            @ (if fst (is_allowed now s) then [now] else []) \<rparr>"
  by (simp add: is_allowed_def Let_def)

lemma is_allowed_limit [simp]: "limit (snd (is_allowed now s)) = limit s"
  by (simp add: is_allowed_def Let_def)

lemma is_allowed_period [simp]: "period (snd (is_allowed now s)) = period s"
  by (simp add: is_allowed_def Let_def)

lemma calls_limit [simp]: "limit (snd (calls ts s)) = limit s"
  by (induction ts arbitrary: s) (simp_all add: split_beta Let_def)

lemma calls_period [simp]: "period (snd (calls ts s)) = period s"
  by (induction ts arbitrary: s) (simp_all add: split_beta Let_def)

lemma calls_append:
  "calls (ts @ us) s =
     (fst (calls ts s) @ fst (calls us (snd (calls ts s))), snd (calls us (snd (calls ts s))))"
  by (induction ts arbitrary: s) (simp_all add: split_beta Let_def)

lemma length_calls [simp]: "length (fst (calls ts s)) = length ts"
  by (induction ts arbitrary: s) (simp_all add: split_beta Let_def)

text \<open>A run of calls during which every timestamp of the window stays live: the free places
  are taken in order, and the calls after that are rejected.\<close>

lemma burst_all_live:
  "\<lbrakk> \<forall>now \<in> set ts. \<forall>t \<in> set (requests s). now - t < real_of_int (period s);
     \<forall>i j. i < j \<and> j < length ts \<longrightarrow> ts ! j - ts ! i < real_of_int (period s) \<rbrakk>
   \<Longrightarrow> fst (calls ts s) =
         replicate (min (nat (limit s) - length (requests s)) (length ts)) True
         @ replicate (length ts - (nat (limit s) - length (requests s))) False"
proof (induction ts arbitrary: s)
  case Nil
  then show ?case by simp
next
  case (Cons now ts)
  let ?P = "real_of_int (period s)"
  have live: "filter (\<lambda>t. now - t < ?P) (requests s) = requests s"
    using Cons.prems(1) by (simp add: filter_id_conv)
  have pw: "\<forall>i j. i < j \<and> j < length ts \<longrightarrow> ts ! j - ts ! i < ?P"
  proof (intro allI impI)
    fix i j assume "i < j \<and> j < length ts"
    then have "Suc i < Suc j \<and> Suc j < length (now # ts)" by simp
    from Cons.prems(2)[rule_format, OF this] show "ts ! j - ts ! i < ?P" by simp
  qed
  have later: "\<forall>t' \<in> set ts. t' - now < ?P"
  proof
    fix t' assume "t' \<in> set ts"
    then obtain j where j: "j < length ts" "ts ! j = t'" by (auto simp: in_set_conv_nth)
    then have "0 < Suc j \<and> Suc j < length (now # ts)" by simp
    from Cons.prems(2)[rule_format, OF this] j show "t' - now < ?P" by simp
  qed
  show ?case
  proof (cases "int (length (requests s)) < limit s")
    case True
    let ?s1 = "snd (is_allowed now s)"
    have r: "fst (is_allowed now s)" using True live by (simp add: is_allowed_fst)
    have s1: "requests ?s1 = requests s @ [now]"
      using r live by (simp add: is_allowed_snd)
    have p1: "\<forall>now' \<in> set ts. \<forall>t \<in> set (requests ?s1). now' - t < real_of_int (period ?s1)"
      using Cons.prems(1) later by (auto simp: s1)
    have pw1: "\<forall>i j. i < j \<and> j < length ts \<longrightarrow> ts ! j - ts ! i < real_of_int (period ?s1)"
      using pw by simp
    from Cons.IH[OF p1 pw1]
    have ih: "fst (calls ts ?s1) =
         replicate (min (nat (limit s) - Suc (length (requests s))) (length ts)) True
         @ replicate (length ts - (nat (limit s) - Suc (length (requests s)))) False"
      by (simp add: s1)
    from True obtain d where d: "nat (limit s) - length (requests s) = Suc d"
      by (cases "nat (limit s) - length (requests s)") auto
    then have d': "nat (limit s) - Suc (length (requests s)) = d" by simp
    show ?thesis
      using r ih by (simp add: split_beta Let_def d d')
  next
    case False
    let ?s1 = "snd (is_allowed now s)"
    have r: "\<not> fst (is_allowed now s)" using False live by (simp add: is_allowed_fst)
    have s1: "requests ?s1 = requests s"
      using r live by (simp add: is_allowed_snd)
    have p1: "\<forall>now' \<in> set ts. \<forall>t \<in> set (requests ?s1). now' - t < real_of_int (period ?s1)"
      using Cons.prems(1) by (auto simp: s1)
    have pw1: "\<forall>i j. i < j \<and> j < length ts \<longrightarrow> ts ! j - ts ! i < real_of_int (period ?s1)"
      using pw by simp
    from False have z: "nat (limit s) - length (requests s) = 0" by simp
    from Cons.IH[OF p1 pw1]
    have ih: "fst (calls ts ?s1) = replicate (length ts) False"
      by (simp add: s1 z)
    show ?thesis
      using r ih by (simp add: split_beta Let_def z)
  qed
qed

lemma burst_from_expired:
  assumes dead: "\<forall>t \<in> set (requests s). real_of_int (period s) \<le> hd ts - t"
    and pw: "\<forall>i j. i < j \<and> j < length ts \<longrightarrow> ts ! j - ts ! i < real_of_int (period s)"
  shows "fst (calls ts s) =
           replicate (min (nat (limit s)) (length ts)) True
           @ replicate (length ts - nat (limit s)) False"
proof (cases ts)
  case Nil
  then show ?thesis by simp
next
  case (Cons now rest)
  let ?P = "real_of_int (period s)"
  let ?s1 = "snd (is_allowed now s)"
  have live: "filter (\<lambda>t. now - t < ?P) (requests s) = []"
    using dead Cons by (auto simp: filter_empty_conv)
  have pw': "\<forall>i j. i < j \<and> j < length rest \<longrightarrow> rest ! j - rest ! i < real_of_int (period ?s1)"
  proof (intro allI impI)
    fix i j assume "i < j \<and> j < length rest"
    then have "Suc i < Suc j \<and> Suc j < length ts" using Cons by simp
    from pw[rule_format, OF this] show "rest ! j - rest ! i < real_of_int (period ?s1)"
      using Cons by simp
  qed
  have later: "\<forall>t' \<in> set rest. t' - now < ?P"
  proof
    fix t' assume "t' \<in> set rest"
    then obtain j where j: "j < length rest" "rest ! j = t'" by (auto simp: in_set_conv_nth)
    then have "0 < Suc j \<and> Suc j < length ts" using Cons by simp
    from pw[rule_format, OF this] j show "t' - now < ?P" using Cons by simp
  qed
  show ?thesis
  proof (cases "0 < limit s")
    case True
    have r: "fst (is_allowed now s)" using True live by (simp add: is_allowed_fst)
    have s1: "requests ?s1 = [now]" using r live by (simp add: is_allowed_snd)
    have p1: "\<forall>now' \<in> set rest. \<forall>t \<in> set (requests ?s1). now' - t < real_of_int (period ?s1)"
      using later by (simp add: s1)
    from True obtain d where d: "nat (limit s) = Suc d" by (cases "nat (limit s)") auto
    from burst_all_live[OF p1 pw']
    have "fst (calls rest ?s1) =
            replicate (min d (length rest)) True @ replicate (length rest - d) False"
      by (simp add: s1 d)
    then show ?thesis using r Cons by (simp add: split_beta Let_def d)
  next
    case False
    have r: "\<not> fst (is_allowed now s)" using False live by (simp add: is_allowed_fst)
    have s1: "requests ?s1 = []" using r live by (simp add: is_allowed_snd)
    have p1: "\<forall>now' \<in> set rest. \<forall>t \<in> set (requests ?s1). now' - t < real_of_int (period ?s1)"
      by (simp add: s1)
    from False have z: "nat (limit s) = 0" by simp
    from burst_all_live[OF p1 pw']
    have "fst (calls rest ?s1) = replicate (length rest) False"
      by (simp add: s1 z)
    then show ?thesis using r Cons by (simp add: split_beta Let_def z)
  qed
qed

lemma oldest_expired_frees_one:
  assumes "requests s = t0 # rest" "length (requests s) \<le> nat (limit s)"
    "real_of_int (period s) \<le> now - t0" "\<forall>t \<in> set rest. now - t < real_of_int (period s)"
  shows "is_allowed now s = (True, s\<lparr> requests := rest @ [now] \<rparr>)"
proof -
  have live: "filter (\<lambda>t. now - t < real_of_int (period s)) (requests s) = rest"
    using assms(1,3,4) by (simp add: filter_id_conv)
  have "int (length rest) < limit s" using assms(1,2) by simp
  then show ?thesis using live by (simp add: is_allowed_def Let_def)
qed

text \<open>
  Claim C3, as the code has it. A call at clock reading \<open>now\<close> keeps the timestamps \<open>t\<close> with
  \<open>now - t < period\<close>, answers true and records \<open>now\<close> when fewer than \<open>limit\<close> remain, and
  answers false otherwise, recording nothing. Hence, for a run of calls whose readings lie
  pairwise within one period, made when no timestamp of the window is live any more at the
  first of them (a new limiter, or one whose entries have all expired), exactly the first
  \<open>limit\<close> calls are admitted and every later one is rejected. And once \<open>period\<close> seconds
  have passed since the oldest recorded call \<open>t0\<close>, the others being live, the next call is
  admitted and takes the one place that \<open>t0\<close> leaves.
\<close>
theorem rate_limiter_sliding_window:
  "(fst (is_allowed now s) \<longleftrightarrow>
      int (length (filter (\<lambda>t. now - t < real_of_int (period s)) (requests s))) < limit s)
   \<and> snd (is_allowed now s) =
       s\<lparr> requests := filter (\<lambda>t. now - t < real_of_int (period s)) (requests s)
              @ (if fst (is_allowed now s) then [now] else []) \<rparr>
   \<and> ((\<forall>t \<in> set (requests s). real_of_int (period s) \<le> hd ts - t)
        \<and> (\<forall>i j. i < j \<and> j < length ts \<longrightarrow> ts ! j - ts ! i < real_of_int (period s))
      \<longrightarrow> fst (calls ts s) =
            replicate (min (nat (limit s)) (length ts)) True
            @ replicate (length ts - nat (limit s)) False)
   \<and> (requests s = t0 # rest \<and> length (requests s) \<le> nat (limit s)
        \<and> real_of_int (period s) \<le> now - t0
        \<and> (\<forall>t \<in> set rest. now - t < real_of_int (period s))
      \<longrightarrow> is_allowed now s = (True, s\<lparr> requests := rest @ [now] \<rparr>))"
  using is_allowed_fst[of now s] is_allowed_snd[of now s]
    burst_from_expired[of s ts] oldest_expired_frees_one[of s t0 rest now]
  by blast

text \<open>
  Counterexample to C3 as stated (exactly the first \<open>L\<close> calls within any window of \<open>P\<close>
  seconds are admitted): limit 1, period 60, calls at 0, 30 and 60. The calls at 30 and 60
  lie in one window of 60 seconds; the first of them is rejected, because the call at 0 is
  still live, and the second is admitted.
\<close>
theorem rate_limiter_window_counterexample:
  "fst (calls [0, 30, 60] (RateLimiter_init 1 60)) = [True, False, True]
   \<and> (60 :: real) - 30 < 60"
  by (simp add: is_allowed_def RateLimiter_init_def Let_def)


text \<open>Witness for C3: limit 3, period 60; four calls within one minute, then a call a
  minute after the oldest.\<close>
theorem rate_limiter_sliding_window_witness:
  "fst (calls [0, 10, 20, 30] (RateLimiter_init 3 60)) = [True, True, True, False]
   \<and> is_allowed 60 \<lparr> limit = 3, period = 60, requests = [0, 10, 20] \<rparr>
       = (True, \<lparr> limit = 3, period = 60, requests = [10, 20, 60] \<rparr>)"
proof -
  have pw: "\<forall>i j. i < j \<and> j < length [0, 10, 20, 30 :: real]
      \<longrightarrow> [0, 10, 20, 30 :: real] ! j - [0, 10, 20, 30] ! i < real_of_int (period (RateLimiter_init 3 60))"
  proof (intro allI impI)
    fix i j :: nat assume "i < j \<and> j < length [0, 10, 20, 30 :: real]"
    then have "j \<in> {1, 2, 3}" "i < j" by auto
    then show "[0, 10, 20, 30 :: real] ! j - [0, 10, 20, 30] ! i
        < real_of_int (period (RateLimiter_init 3 60))"
      by (auto simp: RateLimiter_init_def less_Suc_eq numeral_2_eq_2 numeral_3_eq_3)
  qed
  show ?thesis
    using rate_limiter_sliding_window[of 60 "RateLimiter_init 3 60" "[0, 10, 20, 30]" 0 "[10, 20]"]
      rate_limiter_sliding_window[of 60 "\<lparr> limit = 3, period = 60, requests = [0, 10, 20] \<rparr>" "[]" 0 "[10, 20]"]
      pw
    by (simp add: RateLimiter_init_def numeral_3_eq_3)
qed

lemma is_allowed_bounded:
  "length (requests s) \<le> nat (limit s) \<Longrightarrow> length (requests (snd (is_allowed now s))) \<le> nat (limit s)"
proof -
  assume a: "length (requests s) \<le> nat (limit s)"
  have "length (filter (\<lambda>t. now - t < real_of_int (period s)) (requests s)) \<le> length (requests s)"
    by (rule length_filter_le)
  then have "length (filter (\<lambda>t. now - t < real_of_int (period s)) (requests s)) \<le> nat (limit s)"
    using a by (rule order_trans)
  then show ?thesis by (auto simp: is_allowed_def Let_def)
qed

lemma calls_bounded:
  "length (requests s) \<le> nat (limit s) \<Longrightarrow> length (requests (snd (calls ts s))) \<le> nat (limit s)"
proof (induction ts arbitrary: s)
  case Nil
  then show ?case by simp
next
  case (Cons now ts)
  from is_allowed_bounded[OF Cons.prems, of now]
  have "length (requests (snd (is_allowed now s))) \<le> nat (limit (snd (is_allowed now s)))"
    by simp
  from Cons.IH[OF this] show ?case by (simp add: split_beta Let_def)
qed

lemma is_allowed_live:
  "0 < period s \<Longrightarrow> t \<in> set (requests (snd (is_allowed now s))) \<Longrightarrow> now - t < real_of_int (period s)"
  by (auto simp: is_allowed_def Let_def split: if_splits)

lemma rejected_only_prunes:
  "\<not> fst (is_allowed now s) \<Longrightarrow>
     snd (is_allowed now s) = s\<lparr> requests := filter (\<lambda>t. now - t < real_of_int (period s)) (requests s) \<rparr>"
  by (simp add: is_allowed_def Let_def split: if_splits)

lemma rejected_no_effect_later:
  assumes "\<not> fst (is_allowed now s)" "now \<le> now'"
  shows "is_allowed now' (snd (is_allowed now s)) = is_allowed now' s"
proof -
  let ?P = "real_of_int (period s)"
  have ff: "filter (\<lambda>t. now - t < ?P \<and> now' - t < ?P) (requests s)
        = filter (\<lambda>t. now' - t < ?P) (requests s)"
    using assms(2) by (intro filter_cong) auto
  have e: "snd (is_allowed now s) = s\<lparr> requests := filter (\<lambda>t. now - t < ?P) (requests s) \<rparr>"
    using assms(1) by (rule rejected_only_prunes)
  show ?thesis
    unfolding e by (simp add: is_allowed_def Let_def ff)
qed

text \<open>
  Claim C10. After any sequence of calls on a new limiter with a positive period, the window
  holds at most \<open>limit\<close> timestamps, each less than \<open>period\<close> seconds before the reading of the
  last call. A call that answers false leaves the limiter with the pruned window and nothing
  appended, and any call at that reading or later has the same answer and the same effect
  as if the rejected call had not been made.
\<close>
theorem rate_limiter_window_invariant:
  "(0 < p \<longrightarrow>
      length (requests (snd (calls (ts @ [now]) (RateLimiter_init l p)))) \<le> nat l
      \<and> (\<forall>t \<in> set (requests (snd (calls (ts @ [now]) (RateLimiter_init l p)))).
            now - t < real_of_int p))
   \<and> (\<not> fst (is_allowed now s) \<longrightarrow>
        snd (is_allowed now s)
          = s\<lparr> requests := filter (\<lambda>t. now - t < real_of_int (period s)) (requests s) \<rparr>
        \<and> (\<forall>now'. now \<le> now' \<longrightarrow>
              is_allowed now' (snd (is_allowed now s)) = is_allowed now' s))"
proof (intro conjI impI allI ballI)
  show "length (requests (snd (calls (ts @ [now]) (RateLimiter_init l p)))) \<le> nat l"
    using calls_bounded[of "RateLimiter_init l p" "ts @ [now]"]
    by (simp add: RateLimiter_init_def)
next
  fix t
  assume p: "0 < p"
    and t: "t \<in> set (requests (snd (calls (ts @ [now]) (RateLimiter_init l p))))"
  let ?s = "snd (calls ts (RateLimiter_init l p))"
  have "period ?s = p" by (simp add: RateLimiter_init_def)
  moreover have "t \<in> set (requests (snd (is_allowed now ?s)))"
    using t by (simp add: calls_append split_beta Let_def)
  ultimately show "now - t < real_of_int p"
    using is_allowed_live[of ?s t now] p by simp
next
  assume "\<not> fst (is_allowed now s)"
  then show "snd (is_allowed now s)
          = s\<lparr> requests := filter (\<lambda>t. now - t < real_of_int (period s)) (requests s) \<rparr>"
    by (rule rejected_only_prunes)
next
  fix now'
  assume "\<not> fst (is_allowed now s)" "now \<le> now'"
  then show "is_allowed now' (snd (is_allowed now s)) = is_allowed now' s"
    by (rule rejected_no_effect_later)
qed

text \<open>Witness for C10: limit 2, period 60; calls at 0, 1 and 2, then a call at 60.\<close>
theorem rate_limiter_window_invariant_witness:
  "requests (snd (calls ([0, 1] @ [2]) (RateLimiter_init 2 60))) = [0, 1]
   \<and> \<not> fst (is_allowed 2 \<lparr> limit = 2, period = 60, requests = [0, 1] \<rparr>)
   \<and> is_allowed 60 (snd (is_allowed 2 \<lparr> limit = 2, period = 60, requests = [0, 1] \<rparr>))
       = (True, \<lparr> limit = 2, period = 60, requests = [1, 60] \<rparr>)
   \<and> is_allowed 60 \<lparr> limit = 2, period = 60, requests = [0, 1] \<rparr>
       = (True, \<lparr> limit = 2, period = 60, requests = [1, 60] \<rparr>)"
  using rate_limiter_window_invariant[of 60 "[0, 1]" 2 2 "\<lparr> limit = 2, period = 60, requests = [0, 1] \<rparr>"]
  by (simp add: is_allowed_def RateLimiter_init_def Let_def)

section \<open>Properties of the fetch\<close>

lemma try_body_cases:
  "try_body r card_name = Inr c \<Longrightarrow>
     c = CardData_init card_name '''' '''' '''' '''' False \<or> found c"
  by (auto simp: try_body_def CardData_init_def split: sum.splits if_splits)

lemma retry_loop_result:
  "fst (retry_loop cfg up card_name as) = CardData_init card_name '''' '''' '''' '''' False
   \<or> (\<exists>a \<in> set as. try_body (up a) card_name = Inr (fst (retry_loop cfg up card_name as))
                      \<and> found (fst (retry_loop cfg up card_name as)))"
proof (induction as)
  case Nil
  then show ?case by simp
next
  case (Cons a as)
  show ?case
  proof (cases "try_body (up a) card_name")
    case (Inr info)
    then show ?thesis using try_body_cases[OF Inr] by auto
  next
    case (Inl e)
    then show ?thesis using Cons.IH by (cases e) auto
  qed
qed

lemma retry_step_transient:
  "transient (up a) card_name \<Longrightarrow>
   retry_loop cfg up card_name (a # rest) =
     (if int a = MAX_RETRIES cfg - 1
      then (CardData_init card_name '''' '''' '''' '''' False,
            [Sleep (RATE_LIMIT_DELAY cfg), Get card_name])
      else (fst (retry_loop cfg up card_name rest),
            [Sleep (RATE_LIMIT_DELAY cfg), Get card_name, Sleep (2 ^ a)]
              @ snd (retry_loop cfg up card_name rest)))"
  by (cases "try_body (up a) card_name"; cases "projl (try_body (up a) card_name)")
     (auto simp: transient_def)

lemma retry_step_404:
  "not_found_404 (up a) \<Longrightarrow>
   retry_loop cfg up card_name (a # rest) =
     (CardData_init card_name '''' '''' '''' '''' False,
      [Sleep (RATE_LIMIT_DELAY cfg), Get card_name])"
  by (auto simp: not_found_404_def try_body_def split: sum.splits)

lemma retry_all_transient:
  "\<lbrakk> n = nat (MAX_RETRIES cfg); \<forall>a. j \<le> a \<and> a < n \<longrightarrow> transient (up a) card_name \<rbrakk> \<Longrightarrow>
   retry_loop cfg up card_name [j ..< n] =
     (CardData_init card_name '''' '''' '''' '''' False,
      concat (map (\<lambda>a. [Sleep (RATE_LIMIT_DELAY cfg), Get card_name]
                         @ (if Suc a < n then [Sleep (2 ^ a)] else [])) [j ..< n]))"
proof (induction "n - j" arbitrary: j)
  case 0
  then show ?case by simp
next
  case (Suc d)
  then have jn: "j < n" by simp
  have up: "[j ..< n] = j # [Suc j ..< n]" using jn by (simp add: upt_conv_Cons)
  have tj: "transient (up j) card_name" using Suc.prems(2) jn by simp
  have ih: "retry_loop cfg up card_name [Suc j ..< n] =
     (CardData_init card_name '''' '''' '''' '''' False,
      concat (map (\<lambda>a. [Sleep (RATE_LIMIT_DELAY cfg), Get card_name]
                         @ (if Suc a < n then [Sleep (2 ^ a)] else [])) [Suc j ..< n]))"
    using Suc.hyps(1)[of "Suc j"] Suc.hyps(2) Suc.prems by simp
  have last: "int j = MAX_RETRIES cfg - 1 \<longleftrightarrow> \<not> Suc j < n"
    using jn Suc.prems(1) by auto
  show ?case
    unfolding up retry_step_transient[where up=up and a=j, OF tj] ih
    using last by (cases "Suc j < n") (simp_all add: upt_conv_Cons)
qed

lemma retry_prefix_transient:
  "\<lbrakk> n = nat (MAX_RETRIES cfg); k < n; j \<le> k;
     \<forall>a. j \<le> a \<and> a < k \<longrightarrow> transient (up a) card_name \<rbrakk> \<Longrightarrow>
   retry_loop cfg up card_name [j ..< n] =
     (fst (retry_loop cfg up card_name [k ..< n]),
      concat (map (\<lambda>a. [Sleep (RATE_LIMIT_DELAY cfg), Get card_name, Sleep (2 ^ a)]) [j ..< k])
        @ snd (retry_loop cfg up card_name [k ..< n]))"
proof (induction "k - j" arbitrary: j)
  case 0
  then have "j = k" by simp
  then show ?case by simp
next
  case (Suc d)
  then have jk: "j < k" by simp
  then have jn: "j < n" using Suc.prems(2) by simp
  have up: "[j ..< n] = j # [Suc j ..< n]" using jn by (simp add: upt_conv_Cons)
  have upk: "[j ..< k] = j # [Suc j ..< k]" using jk by (simp add: upt_conv_Cons)
  have tj: "transient (up j) card_name" using Suc.prems(4) jk by simp
  have ih: "retry_loop cfg up card_name [Suc j ..< n] =
     (fst (retry_loop cfg up card_name [k ..< n]),
      concat (map (\<lambda>a. [Sleep (RATE_LIMIT_DELAY cfg), Get card_name, Sleep (2 ^ a)]) [Suc j ..< k])
        @ snd (retry_loop cfg up card_name [k ..< n]))"
    using Suc.hyps(1)[of "Suc j"] Suc.hyps(2) Suc.prems jk by simp
  have notlast: "int j \<noteq> MAX_RETRIES cfg - 1"
    using jk Suc.prems(1,2) by auto
  show ?case
    unfolding up retry_step_transient[where up=up and a=j, OF tj] ih upk
    using notlast by simp
qed

lemma upstream_calls_append [simp]:
  "upstream_calls (xs @ ys) = upstream_calls xs + upstream_calls ys"
  by (simp add: upstream_calls_def)

lemma upstream_calls_Cons [simp]:
  "upstream_calls (e # xs) = (if is_Get e then 1 else 0) + upstream_calls xs"
  by (simp add: upstream_calls_def)

lemma upstream_calls_Nil [simp]: "upstream_calls [] = 0"
  by (simp add: upstream_calls_def)

lemma upstream_calls_rounds:
  "upstream_calls (concat (map (\<lambda>a. [Sleep d, Get nm] @ f a) as))
     = length as + upstream_calls (concat (map f as))"
  by (induction as) simp_all

lemma no_calls_in_backoffs:
  "upstream_calls (concat (map (\<lambda>a. if p a then [Sleep (g a)] else []) as)) = 0"
  by (induction as) simp_all

lemma upstream_calls_full_rounds:
  "upstream_calls (concat (map (\<lambda>a. [Sleep d, Get nm, Sleep (g a)]) as)) = length as"
  by (induction as) simp_all

lemma fetch_open:
  "session self = Some se \<Longrightarrow> \<not> closed se \<Longrightarrow>
   fetch_card_info self cfg up card_name =
     (Inr (fst (retry_loop cfg up card_name [0 ..< nat (MAX_RETRIES cfg)])),
      snd (retry_loop cfg up card_name [0 ..< nat (MAX_RETRIES cfg)]))"
  by (simp add: fetch_card_info_def)

lemma fetch_result_cases:
  "fst (fetch_card_info self cfg up card_name) = Inr c \<Longrightarrow>
     c = CardData_init card_name '''' '''' '''' '''' False
     \<or> (\<exists>a < nat (MAX_RETRIES cfg). try_body (up a) card_name = Inr c \<and> found c)"
  using retry_loop_result[of cfg up card_name "[0 ..< nat (MAX_RETRIES cfg)]"]
  by (auto simp: fetch_card_info_def split: option.splits if_splits)

text \<open>
  Claim C1, as the code has it. With an initialised session that is not closed,
  \<open>fetch_card_info\<close> returns a card whatever the upstream does at each attempt: either the
  card of the submitted name with \<open>found = False\<close> and empty fields, or the card with
  \<open>found = True\<close> that a successful attempt built. Without a session, or with a closed one,
  it raises \<^verbatim>\<open>RuntimeError\<close> before any upstream call.
\<close>
theorem fetch_never_raises_when_open:
  "(session self = Some se \<and> \<not> closed se \<longrightarrow>
      (\<exists>c. fst (fetch_card_info self cfg up card_name) = Inr c
           \<and> (c = CardData_init card_name '''' '''' '''' '''' False
                \<or> (\<exists>a < nat (MAX_RETRIES cfg). try_body (up a) card_name = Inr c \<and> found c))))
   \<and> (session self = None \<or> session self = Some \<lparr> closed = True \<rparr> \<longrightarrow>
        fetch_card_info self cfg up card_name = (Inl RuntimeError, []))"
proof (intro conjI impI)
  assume a: "session self = Some se \<and> \<not> closed se"
  then have "fst (fetch_card_info self cfg up card_name)
               = Inr (fst (retry_loop cfg up card_name [0 ..< nat (MAX_RETRIES cfg)]))"
    by (simp add: fetch_open)
  then show "\<exists>c. fst (fetch_card_info self cfg up card_name) = Inr c
           \<and> (c = CardData_init card_name '''' '''' '''' '''' False
                \<or> (\<exists>a < nat (MAX_RETRIES cfg). try_body (up a) card_name = Inr c \<and> found c))"
    using fetch_result_cases by blast
next
  assume "session self = None \<or> session self = Some \<lparr> closed = True \<rparr>"
  then show "fetch_card_info self cfg up card_name = (Inl RuntimeError, [])"
    by (auto simp: fetch_card_info_def)
qed

text \<open>Counterexample to C1 as stated (never raises): a manager whose session was never
  opened raises \<^verbatim>\<open>RuntimeError\<close> to its caller.\<close>
theorem fetch_raises_without_session:
  "fetch_card_info CardManager_init Config (\<lambda>a. Inl TimeoutError) ''Black Lotus''
     = (Inl RuntimeError, [])"
  by (simp add: fetch_card_info_def CardManager_init_def)

text \<open>Witness for C1: an upstream that fails unexpectedly, with the session entered, and
  with the session entered and left again.\<close>
theorem fetch_never_raises_when_open_witness:
  "fst (fetch_card_info (aenter CardManager_init) Config (\<lambda>a. Inl OtherException) ''Black Lotus'')
     = Inr (CardData_init ''Black Lotus'' '''' '''' '''' '''' False)
   \<and> fetch_card_info (aexit (aenter CardManager_init)) Config (\<lambda>a. Inl OtherException) ''Black Lotus''
     = (Inl RuntimeError, [])"
  using fetch_never_raises_when_open[of "aenter CardManager_init" "\<lparr> closed = False \<rparr>"
      Config "\<lambda>a. Inl OtherException" "''Black Lotus''"]
    fetch_never_raises_when_open[of "aexit (aenter CardManager_init)" "\<lparr> closed = False \<rparr>"
      Config "\<lambda>a. Inl OtherException" "''Black Lotus''"]
  by (auto simp: aenter_def aexit_def CardManager_init_def try_body_def)

text \<open>
  Claim C2. With an open session, if every attempt meets a transient error, the fetch makes
  exactly \<open>MAX_RETRIES\<close> upstream calls, each after the fixed delay \<open>RATE_LIMIT_DELAY\<close>; after
  attempt \<open>a\<close>, except the last, it sleeps \<open>2 ^ a\<close> seconds; and it returns the card of the
  submitted name with \<open>found = False\<close>.
\<close>
theorem fetch_all_transient:
  assumes "session self = Some se" "\<not> closed se"
    and "\<forall>a < nat (MAX_RETRIES cfg). transient (up a) card_name"
  shows "fetch_card_info self cfg up card_name =
           (Inr (CardData_init card_name '''' '''' '''' '''' False),
            concat (map (\<lambda>a. [Sleep (RATE_LIMIT_DELAY cfg), Get card_name]
                               @ (if Suc a < nat (MAX_RETRIES cfg) then [Sleep (2 ^ a)] else []))
                        [0 ..< nat (MAX_RETRIES cfg)]))
         \<and> upstream_calls (snd (fetch_card_info self cfg up card_name)) = nat (MAX_RETRIES cfg)"
proof -
  have r: "retry_loop cfg up card_name [0 ..< nat (MAX_RETRIES cfg)] =
     (CardData_init card_name '''' '''' '''' '''' False,
      concat (map (\<lambda>a. [Sleep (RATE_LIMIT_DELAY cfg), Get card_name]
                         @ (if Suc a < nat (MAX_RETRIES cfg) then [Sleep (2 ^ a)] else []))
                  [0 ..< nat (MAX_RETRIES cfg)]))"
    using assms(3) by (intro retry_all_transient) simp_all
  have f: "fetch_card_info self cfg up card_name =
           (Inr (CardData_init card_name '''' '''' '''' '''' False),
            concat (map (\<lambda>a. [Sleep (RATE_LIMIT_DELAY cfg), Get card_name]
                               @ (if Suc a < nat (MAX_RETRIES cfg) then [Sleep (2 ^ a)] else []))
                        [0 ..< nat (MAX_RETRIES cfg)]))"
    using assms(1,2) by (simp add: fetch_open r)
  have "upstream_calls (snd (fetch_card_info self cfg up card_name)) = nat (MAX_RETRIES cfg)"
    unfolding f snd_conv upstream_calls_rounds no_calls_in_backoffs by simp
  with f show ?thesis by simp
qed

text \<open>Witness for C2: the shipped configuration (three attempts) against a timeout, a 503
  answer and a disconnect; the backoff sleeps are 1 and 2 seconds.\<close>
theorem fetch_all_transient_witness:
  "fetch_card_info \<lparr> session = Some \<lparr> closed = False \<rparr> \<rparr> Config
       (\<lambda>a. if a = 0 then Inl TimeoutError
             else if a = 1 then Inr \<lparr> status = 503, json = Inl OtherException \<rparr>
             else Inl ServerDisconnectedError) ''Black Lotus''
     = (Inr (CardData_init ''Black Lotus'' '''' '''' '''' '''' False),
        [Sleep (1 / 10), Get ''Black Lotus'', Sleep 1,
         Sleep (1 / 10), Get ''Black Lotus'', Sleep 2,
         Sleep (1 / 10), Get ''Black Lotus''])"
proof -
  let ?up = "\<lambda>a::nat. if a = 0 then Inl TimeoutError
             else if a = 1 then Inr \<lparr> status = 503, json = Inl OtherException \<rparr>
             else Inl ServerDisconnectedError"
  have t: "\<forall>a < nat (MAX_RETRIES Config). transient (?up a) ''Black Lotus''"
    by (simp add: transient_def try_body_def)
  have n: "nat (MAX_RETRIES Config) = 3" by (simp add: Config_def)
  have u: "[0 ..< 3] = [0, 1, 2]" by (simp add: upt_conv_Cons)
  show ?thesis
    using fetch_all_transient[of "\<lparr> session = Some \<lparr> closed = False \<rparr> \<rparr>" "\<lparr> closed = False \<rparr>"
        Config ?up "''Black Lotus''"] t
    by (simp add: n u) (simp add: Config_def)
qed

text \<open>
  Claim C5, as the code has it. With an open session, if attempt \<open>k\<close> meets the 404 status
  (as the response's status or as the status of a raised \<^verbatim>\<open>ClientResponseError\<close>) after
  \<open>k\<close> transient failures, the fetch returns the card of the submitted name with
  \<open>found = False\<close> at once: no sleep and no upstream call follows that attempt, so \<open>k + 1\<close>
  calls were made in all, exactly one when the first attempt meets the 404.
\<close>
theorem fetch_404_stops:
  assumes "session self = Some se" "\<not> closed se"
    and "k < nat (MAX_RETRIES cfg)"
    and "\<forall>a < k. transient (up a) card_name"
    and "not_found_404 (up k)"
  shows "fetch_card_info self cfg up card_name =
           (Inr (CardData_init card_name '''' '''' '''' '''' False),
            concat (map (\<lambda>a. [Sleep (RATE_LIMIT_DELAY cfg), Get card_name, Sleep (2 ^ a)]) [0 ..< k])
              @ [Sleep (RATE_LIMIT_DELAY cfg), Get card_name])
         \<and> upstream_calls (snd (fetch_card_info self cfg up card_name)) = Suc k"
proof -
  let ?n = "nat (MAX_RETRIES cfg)"
  have kn: "[k ..< ?n] = k # [Suc k ..< ?n]" using assms(3) by (simp add: upt_conv_Cons)
  have last: "retry_loop cfg up card_name [k ..< ?n] =
     (CardData_init card_name '''' '''' '''' '''' False,
      [Sleep (RATE_LIMIT_DELAY cfg), Get card_name])"
    unfolding kn using assms(5) by (rule retry_step_404)
  have "retry_loop cfg up card_name [0 ..< ?n] =
     (fst (retry_loop cfg up card_name [k ..< ?n]),
      concat (map (\<lambda>a. [Sleep (RATE_LIMIT_DELAY cfg), Get card_name, Sleep (2 ^ a)]) [0 ..< k])
        @ snd (retry_loop cfg up card_name [k ..< ?n]))"
    using assms(3,4) by (intro retry_prefix_transient) simp_all
  then have f: "fetch_card_info self cfg up card_name =
           (Inr (CardData_init card_name '''' '''' '''' '''' False),
            concat (map (\<lambda>a. [Sleep (RATE_LIMIT_DELAY cfg), Get card_name, Sleep (2 ^ a)]) [0 ..< k])
              @ [Sleep (RATE_LIMIT_DELAY cfg), Get card_name])"
    using assms(1,2) by (simp add: fetch_open last)
  have "upstream_calls (snd (fetch_card_info self cfg up card_name)) = Suc k"
    unfolding f snd_conv upstream_calls_append upstream_calls_full_rounds by simp
  with f show ?thesis by simp
qed

text \<open>Counterexample to C5 as stated (exactly one upstream call whichever attempt meets the
  404): a timeout at the first attempt and a 404 at the second make two upstream calls.\<close>
theorem fetch_404_after_retry_two_calls:
  "not_found_404 (Inr \<lparr> status = 404, json = Inl OtherException \<rparr>)
   \<and> upstream_calls (snd (fetch_card_info \<lparr> session = Some \<lparr> closed = False \<rparr> \<rparr> Config
        (\<lambda>a. if a = 0 then Inl TimeoutError else Inr \<lparr> status = 404, json = Inl OtherException \<rparr>)
        ''Xyzzyxnonexistent'')) = 2"
  by (simp add: not_found_404_def fetch_card_info_def Config_def try_body_def upt_conv_Cons
        upstream_calls_def)

text \<open>Witness for C5: a 404 at the first attempt, one upstream call.\<close>
theorem fetch_404_stops_witness:
  "fetch_card_info \<lparr> session = Some \<lparr> closed = False \<rparr> \<rparr> Config
        (\<lambda>a. Inr \<lparr> status = 404, json = Inl OtherException \<rparr>) ''Xyzzyxnonexistent''
     = (Inr (CardData_init ''Xyzzyxnonexistent'' '''' '''' '''' '''' False),
        [Sleep (1 / 10), Get ''Xyzzyxnonexistent''])
   \<and> upstream_calls (snd (fetch_card_info \<lparr> session = Some \<lparr> closed = False \<rparr> \<rparr> Config
        (\<lambda>a. Inr \<lparr> status = 404, json = Inl OtherException \<rparr>) ''Xyzzyxnonexistent'')) = 1"
  using fetch_404_stops[of "\<lparr> session = Some \<lparr> closed = False \<rparr> \<rparr>" "\<lparr> closed = False \<rparr>" 0
        Config "\<lambda>a. Inr \<lparr> status = 404, json = Inl OtherException \<rparr>" "''Xyzzyxnonexistent''"]
  by (simp add: not_found_404_def Config_def)

text \<open>Claim C8. A card returned by \<open>fetch_card_info\<close> with \<open>found = False\<close> has the empty
  string in \<open>oracle_text\<close>, \<open>mana_cost\<close>, \<open>type_line\<close> and \<open>set_name\<close>.\<close>
theorem fetch_not_found_fields_empty:
  "fst (fetch_card_info self cfg up card_name) = Inr c \<Longrightarrow> \<not> found c \<Longrightarrow>
     oracle_text c = '''' \<and> mana_cost c = '''' \<and> type_line c = '''' \<and> set_name c = ''''"
  using fetch_result_cases[of self cfg up card_name c]
  by (auto simp: CardData_init_def)

text \<open>Witness for C8: the card returned for a 404.\<close>
theorem fetch_not_found_fields_empty_witness:
  "fst (fetch_card_info \<lparr> session = Some \<lparr> closed = False \<rparr> \<rparr> Config
         (\<lambda>a. Inr \<lparr> status = 404, json = Inl OtherException \<rparr>) ''Xyzzyxnonexistent'')
     = Inr \<lparr> name = ''Xyzzyxnonexistent'', oracle_text = '''', mana_cost = '''', type_line = '''',
            set_name = '''', found = False \<rparr>"
proof -
  have e: "fst (fetch_card_info \<lparr> session = Some \<lparr> closed = False \<rparr> \<rparr> Config
         (\<lambda>a. Inr \<lparr> status = 404, json = Inl OtherException \<rparr>) ''Xyzzyxnonexistent'')
     = Inr (CardData_init ''Xyzzyxnonexistent'' '''' '''' '''' '''' False)"
    by (simp add: fetch_card_info_def Config_def try_body_def upt_conv_Cons)
  from fetch_not_found_fields_empty[OF e] show ?thesis
    by (simp add: e CardData_init_def)
qed

section \<open>Properties of the worker\<close>

lemma task_done_pos:
  "0 < unfinished_tasks q \<Longrightarrow> task_done q = Inr (q\<lparr> unfinished_tasks := unfinished_tasks q - 1 \<rparr>)"
  by (simp add: task_done_def)

lemma process_batch_all_done:
  "int (length batch) \<le> unfinished_tasks q \<Longrightarrow>
   \<exists>c1. process_batch card_manager cfg ups batch (c, q) =
          (Inr (c1, q\<lparr> unfinished_tasks := unfinished_tasks q - int (length batch) \<rparr>), batch)"
proof (induction batch arbitrary: c q)
  case Nil
  then show ?case by simp
next
  case (Cons card_name batch)
  let ?q1 = "q\<lparr> unfinished_tasks := unfinished_tasks q - 1 \<rparr>"
  have td: "task_done q = Inr ?q1" using Cons.prems by (intro task_done_pos) simp
  have le: "int (length batch) \<le> unfinished_tasks ?q1" using Cons.prems by simp
  let ?c1 = "if \<not> cache_contains c card_name
             then (case fst (fetch_card_info card_manager cfg (ups card_name) card_name) of
                     Inr card_info \<Rightarrow> cache_setitem card_name card_info c
                   | Inl e \<Rightarrow> c)
             else c"
  from Cons.IH[OF le, of ?c1] obtain c2 where
    ih: "process_batch card_manager cfg ups batch (?c1, ?q1) =
          (Inr (c2, ?q1\<lparr> unfinished_tasks := unfinished_tasks ?q1 - int (length batch) \<rparr>), batch)"
    by blast
  have "process_batch card_manager cfg ups (card_name # batch) (c, q) =
          (Inr (c2, q\<lparr> unfinished_tasks := unfinished_tasks q - int (length (card_name # batch)) \<rparr>),
           card_name # batch)"
    by (simp add: td ih Let_def del: process_batch.simps(2))
       (simp add: td ih Let_def algebra_simps)
  then show ?case by blast
qed

lemma wait_for_get_Cons:
  "items q = x # xs \<Longrightarrow> wait_for_get q = Inr (x, q\<lparr> items := xs \<rparr>)"
  by (simp add: wait_for_get_def)

lemma wait_for_get_Nil: "items q = [] \<Longrightarrow> wait_for_get q = Inl TimeoutError"
  by (simp add: wait_for_get_def)

lemma collect_batch_take:
  "collect_batch n q batch = (batch @ take n (items q), q\<lparr> items := drop n (items q) \<rparr>)"
proof (induction n arbitrary: q batch)
  case 0
  then show ?case by simp
next
  case (Suc n)
  show ?case
  proof (cases "items q")
    case Nil
    then show ?thesis by (simp add: wait_for_get_Nil)
  next
    case (Cons x xs)
    then show ?thesis by (simp add: wait_for_get_Cons Suc.IH)
  qed
qed

text \<open>
  Claim C4. Processing a batch whose items were all taken from the queue (so that the count
  of unfinished tasks is at least the length of the batch) marks every item done exactly
  once, in order, whatever the fetches do, also when each of them raises; no exception
  leaves the loop, and the count of unfinished tasks drops by the length of the batch. One
  round of the worker on a queue whose pending items are all unfinished collects the first
  \<open>BATCH_SIZE\<close> items and marks exactly those done.
\<close>
theorem every_item_marked_done_once:
  "(int (length batch) \<le> unfinished_tasks q \<longrightarrow>
      (\<exists>c1. process_batch card_manager cfg ups batch (c, q) =
          (Inr (c1, q\<lparr> unfinished_tasks := unfinished_tasks q - int (length batch) \<rparr>), batch)))
   \<and> (int (length (items q)) \<le> unfinished_tasks q \<longrightarrow>
        (\<exists>c1. process_queue_round card_manager cfg ups (c, q) =
          (Inr (c1, q\<lparr> items := drop (nat (BATCH_SIZE cfg)) (items q),
                       unfinished_tasks := unfinished_tasks q
                          - int (length (take (nat (BATCH_SIZE cfg)) (items q))) \<rparr>),
           take (nat (BATCH_SIZE cfg)) (items q))))"
proof (intro conjI impI)
  assume "int (length batch) \<le> unfinished_tasks q"
  then show "\<exists>c1. process_batch card_manager cfg ups batch (c, q) =
          (Inr (c1, q\<lparr> unfinished_tasks := unfinished_tasks q - int (length batch) \<rparr>), batch)"
    by (rule process_batch_all_done)
next
  assume inv: "int (length (items q)) \<le> unfinished_tasks q"
  let ?n = "nat (BATCH_SIZE cfg)"
  let ?b = "take ?n (items q)"
  let ?q1 = "q\<lparr> items := drop ?n (items q) \<rparr>"
  have cb: "collect_batch ?n q [] = (?b, ?q1)" by (simp add: collect_batch_take)
  have le: "int (length ?b) \<le> unfinished_tasks ?q1" using inv by simp
  from process_batch_all_done[OF le, of card_manager cfg ups c] obtain c1 where
    pb: "process_batch card_manager cfg ups ?b (c, ?q1) =
          (Inr (c1, ?q1\<lparr> unfinished_tasks := unfinished_tasks ?q1 - int (length ?b) \<rparr>), ?b)"
    by blast
  show "\<exists>c1. process_queue_round card_manager cfg ups (c, q) =
          (Inr (c1, q\<lparr> items := drop ?n (items q),
                       unfinished_tasks := unfinished_tasks q - int (length ?b) \<rparr>), ?b)"
  proof (cases "?b = []")
    case True
    then have d: "drop ?n (items q) = items q"
      by (cases "items q") auto
    from True have m: "min (length (items q)) ?n = 0"
      by auto
    from True show ?thesis by (simp add: process_queue_round_def cb d m)
  next
    case False
    then show ?thesis using pb by (simp add: process_queue_round_def cb)
  qed
qed

text \<open>Witness for C4: a manager without a session, so that every fetch raises; both items
  of the batch are marked done all the same.\<close>
theorem every_item_marked_done_once_witness:
  "process_batch CardManager_init Config (\<lambda>nm a. Inl TimeoutError)
       [''Black Lotus'', ''Mox Pearl'']
       ([], \<lparr> items = [''Time Walk''], maxsize = 1000, unfinished_tasks = 3 \<rparr>)
     = (Inr ([], \<lparr> items = [''Time Walk''], maxsize = 1000, unfinished_tasks = 1 \<rparr>),
        [''Black Lotus'', ''Mox Pearl''])
   \<and> snd (process_queue_round CardManager_init Config (\<lambda>nm a. Inl TimeoutError)
       ([], \<lparr> items = [''Time Walk''], maxsize = 1000, unfinished_tasks = 1 \<rparr>))
     = [''Time Walk'']"
  using every_item_marked_done_once[of "[''Black Lotus'', ''Mox Pearl'']"
      "\<lparr> items = [''Time Walk''], maxsize = 1000, unfinished_tasks = 3 \<rparr>"
      CardManager_init Config "\<lambda>nm a. Inl TimeoutError" "[]"]
    every_item_marked_done_once[of "[]"
      "\<lparr> items = [''Time Walk''], maxsize = 1000, unfinished_tasks = 1 \<rparr>"
      CardManager_init Config "\<lambda>nm a. Inl TimeoutError" "[]"]
  by (auto simp: fetch_card_info_def CardManager_init_def cache_contains_def Config_def task_done_def)







section \<open>Properties of the lookup endpoint\<close>

lemma lookup_names_Cons:
  "lookup_names c ((nm, freed) # rest) qw =
     (case map_of c nm of
        Some card_data \<Rightarrow>
          (card_entry card_data # fst (lookup_names c rest qw), snd (lookup_names c rest qw))
      | None \<Rightarrow>
          ([(''name'', nm),
            (''status'', if fst (add_to_queue freed nm qw) then ''queued'' else ''queue full'')]
             # fst (lookup_names c rest (snd (add_to_queue freed nm qw))),
           snd (lookup_names c rest (snd (add_to_queue freed nm qw)))))"
  by (simp add: split_beta split: option.splits)

lemma lookup_names_length [simp]: "length (fst (lookup_names c reqs qw)) = length reqs"
proof (induction reqs arbitrary: qw)
  case Nil
  then show ?case by simp
next
  case (Cons r reqs)
  then show ?case
    by (cases r) (simp add: lookup_names_Cons del: lookup_names.simps(2) split: option.splits)
qed

lemma lookup_names_nth:
  "i < length reqs \<Longrightarrow>
   (case map_of c (fst (reqs ! i)) of
      Some card_data \<Rightarrow>
        fst (lookup_names c reqs qw) ! i = card_entry card_data
        \<and> snd (lookup_names c (take (Suc i) reqs) qw) = snd (lookup_names c (take i reqs) qw)
    | None \<Rightarrow>
        fst (lookup_names c reqs qw) ! i =
          [(''name'', fst (reqs ! i)),
           (''status'',
            if fst (add_to_queue (snd (reqs ! i)) (fst (reqs ! i))
                      (snd (lookup_names c (take i reqs) qw)))
            then ''queued'' else ''queue full'')]
        \<and> snd (lookup_names c (take (Suc i) reqs) qw) =
            snd (add_to_queue (snd (reqs ! i)) (fst (reqs ! i))
                   (snd (lookup_names c (take i reqs) qw))))"
proof (induction reqs arbitrary: i qw)
  case Nil
  then show ?case by simp
next
  case (Cons r rest)
  obtain nm freed where r: "r = (nm, freed)" by (cases r)
  show ?case
  proof (cases i)
    case 0
    then show ?thesis
      by (simp add: r lookup_names_Cons del: lookup_names.simps(2) split: option.splits)
  next
    case (Suc j)
    then have j: "j < length rest" using Cons.prems by simp
    show ?thesis
    proof (cases "map_of c nm")
      case None
      from Cons.IH[OF j, of "snd (add_to_queue freed nm qw)"] show ?thesis
        using Suc None
        by (simp add: r lookup_names_Cons del: lookup_names.simps(2) split: option.splits)
    next
      case (Some card_data)
      from Cons.IH[OF j, of qw] show ?thesis
        using Suc Some
        by (simp add: r lookup_names_Cons del: lookup_names.simps(2) split: option.splits)
    qed
  qed
qed

lemma fetch_cards_worker_prefix:
  "snd (fetch_cards c reqs qw) = snd (lookup_names c reqs qw)"
  by (simp add: fetch_cards_def)

lemma fetch_cards_entries:
  "reqs \<noteq> [] \<Longrightarrow> fst (fetch_cards c reqs qw) = (fst (lookup_names c reqs qw), 200)"
  by (simp add: fetch_cards_def)

text \<open>
  Claim C7. For the \<open>i\<close>-th submitted name: when the cache holds it, the \<open>i\<close>-th entry of the
  answer is the cached card with status \<open>found\<close> or \<open>not found\<close> after its flag, and the
  worker is as it was before that name (nothing is enqueued); otherwise the name is given to
  \<open>add_to_queue\<close> on the worker as the earlier names left it, and the entry is the name with
  status \<open>queued\<close> when that call answers true and \<open>queue full\<close> when it answers false.
\<close>
theorem fetch_cards_statuses:
  assumes "i < length card_names"
  shows "length (fst (fst (fetch_cards c card_names qw))) = length card_names
    \<and> (case map_of c (fst (card_names ! i)) of
        Some card_data \<Rightarrow>
          fst (fst (fetch_cards c card_names qw)) ! i =
            [(''name'', name card_data), (''oracle_text'', oracle_text card_data),
             (''mana_cost'', mana_cost card_data), (''type_line'', type_line card_data),
             (''set_name'', set_name card_data),
             (''status'', if found card_data then ''found'' else ''not found'')]
          \<and> snd (fetch_cards c (take (Suc i) card_names) qw)
              = snd (fetch_cards c (take i card_names) qw)
      | None \<Rightarrow>
          fst (fst (fetch_cards c card_names qw)) ! i =
            [(''name'', fst (card_names ! i)),
             (''status'',
              if fst (add_to_queue (snd (card_names ! i)) (fst (card_names ! i))
                        (snd (fetch_cards c (take i card_names) qw)))
              then ''queued'' else ''queue full'')]
          \<and> snd (fetch_cards c (take (Suc i) card_names) qw) =
              snd (add_to_queue (snd (card_names ! i)) (fst (card_names ! i))
                     (snd (fetch_cards c (take i card_names) qw))))"
proof -
  from assms have ne: "card_names \<noteq> []" by auto
  show ?thesis
    using lookup_names_nth[OF assms, of c qw]
    by (simp add: fetch_cards_worker_prefix fetch_cards_entries[OF ne] card_entry_def
          split: option.splits)
qed


text \<open>Witness for C7: a cached found card, a cached card that was not found, and two names
  not cached, submitted to a queue with room for one.\<close>
theorem fetch_cards_statuses_witness:
  "map (\<lambda>e. map_of e ''status'')
     (fst (fst (fetch_cards
        [(''Black Lotus'', CardData_init ''Black Lotus'' ''text'' ''0'' ''Artifact'' ''Alpha'' True),
         (''Xyzzy'', CardData_init ''Xyzzy'' '''' '''' '''' '''' False)]
        [(''Black Lotus'', False), (''Xyzzy'', False), (''Mox Pearl'', False), (''Time Walk'', False)]
        \<lparr> queue = Queue_init 1, is_running = True \<rparr>)))
   = [Some ''found'', Some ''not found'', Some ''queued'', Some ''queue full'']"
proof -
  let ?c = "[(''Black Lotus'', CardData_init ''Black Lotus'' ''text'' ''0'' ''Artifact'' ''Alpha'' True),
         (''Xyzzy'', CardData_init ''Xyzzy'' '''' '''' '''' '''' False)]"
  let ?ns = "[(''Black Lotus'', False), (''Xyzzy'', False), (''Mox Pearl'', False), (''Time Walk'', False)]"
  let ?qw = "\<lparr> queue = Queue_init 1, is_running = True \<rparr>"
  have l: "(3::nat) < length ?ns" by simp
  from fetch_cards_statuses[OF l, of ?c ?qw]
  have "fst (fst (fetch_cards ?c ?ns ?qw)) ! 3 = [(''name'', ''Time Walk''), (''status'', ''queue full'')]"
    by (simp add: fetch_cards_def add_to_queue_def wait_for_put_def full_def put_nowait_def
          Queue_init_def numeral_3_eq_3)
  then show ?thesis
    by (simp add: fetch_cards_def add_to_queue_def wait_for_put_def full_def put_nowait_def
          Queue_init_def card_entry_def CardData_init_def)
qed

end
